theory Spec2Isabelle
  imports Main "HOL-Library.Multiset"
begin

section \<open>Errors and geometry\<close>

text \<open>
  The exceptions the three modules can raise. A function of the source that may raise
  returns \<open>py_error + 'a\<close>, with \<open>Inl\<close> for the exception.
\<close>

datatype py_error = AssertionError | ValueError | ZeroDivisionError | IndexError | KeyError

text \<open>
  Modelled from the spec: \<open>Shape\<close> and \<open>Slice\<close> of \<open>libertem.common\<close> (not part of the
  sources at hand). A shape is an ordered sequence of extents split into a leading
  \<open>nav\<close> group and a trailing \<open>sig\<close> group of \<open>sig_dims\<close> entries; \<open>size\<close> is the
  product of a group; a slice is an origin with a shape.
\<close>

record Shape =
  dims :: "int list"
  sig_dims :: nat

definition Shape_nav :: "Shape \<Rightarrow> int list" where
  "Shape_nav s = take (length (dims s) - sig_dims s) (dims s)"

definition Shape_sig :: "Shape \<Rightarrow> int list" where
  "Shape_sig s = drop (length (dims s) - sig_dims s) (dims s)"

definition nav_dims :: "Shape \<Rightarrow> nat" where
  "nav_dims s = length (Shape_nav s)"

definition nav_size :: "Shape \<Rightarrow> int" where
  "nav_size s = prod_list (Shape_nav s)"

definition flatten_nav :: "Shape \<Rightarrow> Shape" where
  "flatten_nav s = \<lparr>dims = nav_size s # Shape_sig s, sig_dims = sig_dims s\<rparr>"

record Slice =
  origin :: "int list"
  shape :: Shape

section \<open>partition.py: Partition.make_slices\<close>

text \<open>
  The generator of \<open>make_slices\<close>: \<open>zip(c0, c1)\<close> walks \<open>start\<close> and \<open>stop\<close> upwards in
  steps of \<open>f_per_part = max(1, num_frames // num_partitions)\<close> and breaks at the first
  \<open>start >= num_frames\<close>. The step is at least 1, so the walk ends.
\<close>

function make_slices_loop ::
  "Shape \<Rightarrow> int \<Rightarrow> int \<Rightarrow> int \<Rightarrow> (Slice \<times> int \<times> int) list" where
  "make_slices_loop shp num_partitions start stop =
     (let num_frames = nav_size shp;
          f_per_part = max 1 (num_frames div num_partitions)
      in if start \<ge> num_frames then []
         else (let stop' = min stop num_frames;
                   part_slice = \<lparr>origin = start # replicate (sig_dims shp) 0,
                                 shape = \<lparr>dims = (stop' - start) # Shape_sig shp,
                                          sig_dims = sig_dims shp\<rparr>\<rparr>
               in (part_slice, start, stop')
                  # make_slices_loop shp num_partitions (start + f_per_part) (stop + f_per_part)))"
  by pat_completeness auto
termination
  by (relation "measure (\<lambda>(shp, k, start, stop). nat (nav_size shp - start))") auto

declare make_slices_loop.simps [simp del]

definition make_slices :: "Shape \<Rightarrow> int \<Rightarrow> py_error + (Slice \<times> int \<times> int) list" where
  "make_slices shp num_partitions =
     (if num_partitions = 0 then Inl ZeroDivisionError
      else (let num_frames = nav_size shp;
                f_per_part = max 1 (num_frames div num_partitions)
            in Inr (make_slices_loop shp num_partitions 0 f_per_part)))"

text \<open>The step width and the frame bounds \<open>(start, stop)\<close> of the yielded triples.\<close>

definition f_per_part :: "Shape \<Rightarrow> int \<Rightarrow> int" where
  "f_per_part shp k = max 1 (nav_size shp div k)"

definition ranges :: "(Slice \<times> int \<times> int) list \<Rightarrow> (int \<times> int) list" where
  "ranges rs = map snd rs"

section \<open>partition.py: Partition\<close>

text \<open>
  Modelled from the spec: \<open>DataSetMeta\<close> (meta.py is not part of the sources at hand),
  the dataset shape and the raw and converted element types. An element type is its
  name with its size in bytes.
\<close>

record dtype =
  dt_name :: string
  itemsize :: int

record DataSetMeta =
  meta_shape :: Shape
  raw_dtype :: dtype
  meta_dtype :: dtype

record Partition =
  meta :: DataSetMeta
  slice :: Slice

definition Partition_init :: "DataSetMeta \<Rightarrow> Slice \<Rightarrow> py_error + Partition" where
  "Partition_init m partition_slice =
     (if nav_dims (shape partition_slice) \<noteq> 1 then Inl ValueError
      else Inr \<lparr>meta = m, slice = partition_slice\<rparr>)"

definition Partition_shape :: "'a Partition_scheme \<Rightarrow> Shape" where
  "Partition_shape p = flatten_nav (shape (slice p))"

section \<open>fileset.py: FileSet\<close>

text \<open>
  Modelled from the spec: the \<open>File\<close> descriptor (file.py is not part of the sources at
  hand): its path, the frame range \<open>[start_idx, end_idx)\<close>, the header size and the
  open handle, here the flag \<open>is_open\<close>; \<open>open\<close> acquires the handle and \<open>close\<close>
  releases it.
\<close>

record File =
  path :: string
  start_idx :: int
  end_idx :: int
  file_header_bytes :: int
  is_open :: bool

definition File_open :: "File \<Rightarrow> File" where
  "File_open f = f\<lparr>is_open := True\<rparr>"

definition File_close :: "File \<Rightarrow> File" where
  "File_close f = f\<lparr>is_open := False\<rparr>"

text \<open>
  A gap-free, non-overlapping cover in the order given: every file holds at least one
  frame and ends where the next one starts.
\<close>

fun contiguous :: "File list \<Rightarrow> bool" where
  "contiguous [] = True"
| "contiguous [f] = (start_idx f < end_idx f)"
| "contiguous (f # g # fs) =
     (start_idx f < end_idx f \<and> end_idx f = start_idx g \<and> contiguous (g # fs))"

text \<open>
  Modelled from the spec: \<open>FileTree\<close> of utils.py (not part of the sources at hand), the
  index over the file descriptors. The spec asks only for an ordered structure, so the
  index is the list of the files with their positions, sorted by \<open>start_idx\<close>.
  \<open>FileTree.make\<close> gives no index (\<open>None\<close>) for zero files and for files that cannot be
  ordered into a gap-free, non-overlapping cover. \<open>search_start\<close> returns the position
  of the file whose range contains the frame, or of the first file starting at or after
  the frame if none contains it; with no such file the lower bound is the number of
  files.
\<close>

type_synonym FileTree = "(nat \<times> File) list"

definition FileTree_make :: "File list \<Rightarrow> FileTree option" where
  "FileTree_make fl =
     (let t = sort_key (\<lambda>e. start_idx (snd e)) (enumerate 0 fl)
      in if fl \<noteq> [] \<and> contiguous (map snd t) then Some t else None)"

definition search_start :: "FileTree \<Rightarrow> int \<Rightarrow> nat \<times> File option" where
  "search_start t v =
     (case find (\<lambda>e. start_idx (snd e) \<le> v \<and> v < end_idx (snd e)) t of
        Some e \<Rightarrow> (fst e, Some (snd e))
      | None \<Rightarrow>
         (case find (\<lambda>e. v \<le> start_idx (snd e)) t of
            Some e \<Rightarrow> (fst e, Some (snd e))
          | None \<Rightarrow> (length t, None)))"

record FileSet =
  fs_files :: "File list"
  fs_tree :: FileTree
  files_open :: bool
  frame_header_bytes :: int
  frame_footer_bytes :: int

definition FileSet_init :: "File list \<Rightarrow> int \<Rightarrow> int \<Rightarrow> py_error + FileSet" where
  "FileSet_init fl fhb ffb =
     (if \<not> length fl > 0 then Inl AssertionError
      else (case FileTree_make fl of
              None \<Rightarrow> Inl ValueError
            | Some t \<Rightarrow> Inr \<lparr>fs_files = fl, fs_tree = t, files_open = False,
                            frame_header_bytes = fhb, frame_footer_bytes = ffb\<rparr>))"

definition files_from :: "FileSet \<Rightarrow> int \<Rightarrow> File list" where
  "files_from fs start =
     (let (lower_bound, f) = search_start (fs_tree fs) start
      in map (\<lambda>idx. fs_files fs ! idx) [lower_bound..<length (fs_files fs)])"

text \<open>The loop of \<open>_get_files_for_range\<close>: append until a file starts after \<open>stop\<close>.\<close>

fun files_until :: "int \<Rightarrow> File list \<Rightarrow> File list" where
  "files_until stop [] = []"
| "files_until stop (f # fs) = (if start_idx f > stop then [] else f # files_until stop fs)"

definition get_files_for_range :: "FileSet \<Rightarrow> int \<Rightarrow> int \<Rightarrow> py_error + File list" where
  "get_files_for_range fs start stop =
     (let fl = files_until stop (files_from fs start)
      in if \<not> length fl > 0 then Inl AssertionError else Inr fl)"

definition get_for_range :: "FileSet \<Rightarrow> int \<Rightarrow> int \<Rightarrow> py_error + FileSet" where
  "get_for_range fs start stop =
     (case get_files_for_range fs start stop of
        Inl e \<Rightarrow> Inl e
      | Inr fl \<Rightarrow> FileSet_init fl (frame_header_bytes fs) (frame_footer_bytes fs))"

text \<open>
  \<open>__enter__\<close> and \<open>__exit__\<close>, and the \<open>with\<close> statement around a body that returns or
  raises: \<open>__exit__\<close> receives the exception, if any, and returns nothing, so the
  exception goes on to the caller.
\<close>

definition FileSet_enter :: "FileSet \<Rightarrow> FileSet" where
  "FileSet_enter fs = fs\<lparr>fs_files := map File_open (fs_files fs), files_open := True\<rparr>"

definition FileSet_exit :: "FileSet \<Rightarrow> py_error option \<Rightarrow> FileSet" where
  "FileSet_exit fs exc = fs\<lparr>fs_files := map File_close (fs_files fs), files_open := False\<rparr>"

definition with_FileSet :: "FileSet \<Rightarrow> (FileSet \<Rightarrow> py_error + 'a) \<Rightarrow> (py_error + 'a) \<times> FileSet" where
  "with_FileSet fs body =
     (let fs1 = FileSet_enter fs;
          r = body fs1
      in (r, FileSet_exit fs1 (case r of Inl e \<Rightarrow> Some e | Inr v \<Rightarrow> None)))"

text \<open>
  \<open>get_as_arr\<close>: one row \<open>(start_idx, end_idx, idx, file_header_bytes)\<close> per file.
\<close>

definition get_as_arr :: "FileSet \<Rightarrow> (int \<times> int \<times> int \<times> int) list" where
  "get_as_arr fs =
     map (\<lambda>(idx, f). (start_idx f, end_idx f, int idx, file_header_bytes f))
       (enumerate 0 (fs_files fs))"

text \<open>
  Modelled from the spec: \<open>TilingScheme\<close> of tiling.py (not part of the sources at hand):
  the depth, the signal sub-slices (origin and extent) and the dataset shape.
  \<open>make_for_shape\<close>, as \<open>get_macrotile\<close> uses it, gives the depth of the tile shape and
  one sub-slice, the whole signal shape.
\<close>

record TilingScheme =
  depth :: int
  slices_array :: "(int list \<times> int list) list"
  dataset_shape :: Shape

definition make_for_shape :: "Shape \<Rightarrow> Shape \<Rightarrow> TilingScheme" where
  "make_for_shape tileshape ds_shape =
     \<lparr>depth = nav_size tileshape,
      slices_array = [(replicate (length (Shape_sig tileshape)) 0, Shape_sig tileshape)],
      dataset_shape = ds_shape\<rparr>"

text \<open>
  The keyword arguments \<open>get_read_ranges\<close> hands to \<open>default_get_read_ranges\<close>. The
  compiler itself is in tiling.py, which is not part of the sources at hand: it is the
  parameter \<open>compile\<close> below.
\<close>

record 'roi read_ranges_args =
  arg_start_at_frame :: int
  arg_stop_before_frame :: int
  arg_roi :: "'roi option"
  arg_depth :: int
  arg_slices_arr :: "(int list \<times> int list) list"
  arg_fileset_arr :: "(int \<times> int \<times> int \<times> int) list"
  arg_sig_shape :: "int list"
  arg_bpp :: int
  arg_frame_header_bytes :: int
  arg_frame_footer_bytes :: int

definition get_read_ranges ::
  "('roi read_ranges_args \<Rightarrow> 'r) \<Rightarrow> FileSet \<Rightarrow> int \<Rightarrow> int \<Rightarrow> dtype \<Rightarrow> TilingScheme
     \<Rightarrow> 'roi option \<Rightarrow> 'r" where
  "get_read_ranges compile fs start_at_frame stop_before_frame dt tiling_scheme roi =
     (let fileset_arr = get_as_arr fs
      in compile \<lparr>arg_start_at_frame = start_at_frame,
                   arg_stop_before_frame = stop_before_frame,
                   arg_roi = roi,
                   arg_depth = depth tiling_scheme,
                   arg_slices_arr = slices_array tiling_scheme,
                   arg_fileset_arr = fileset_arr,
                   arg_sig_shape = Shape_sig (dataset_shape tiling_scheme),
                   arg_bpp = itemsize dt,
                   arg_frame_header_bytes = frame_header_bytes fs,
                   arg_frame_footer_bytes = frame_footer_bytes fs\<rparr>)"

section \<open>partition.py: BasePartition\<close>

record BasePartition = Partition +
  fileset :: FileSet
  start_frame :: int
  num_frames :: int

definition BasePartition_init ::
  "DataSetMeta \<Rightarrow> Slice \<Rightarrow> FileSet \<Rightarrow> int \<Rightarrow> int \<Rightarrow> py_error + BasePartition" where
  "BasePartition_init m partition_slice fs start nframes =
     (case Partition_init m partition_slice of
        Inl e \<Rightarrow> Inl e
      | Inr p \<Rightarrow>
         (case get_for_range fs start (start + nframes - 1) of
            Inl e \<Rightarrow> Inl e
          | Inr fs' \<Rightarrow>
             if nframes \<le> 0 then Inl ValueError
             else Inr \<lparr>meta = meta p, slice = slice p, fileset = fs',
                       start_frame = start, num_frames = nframes\<rparr>))"

text \<open>
  Modelled from the spec: \<open>DataTile\<close> of tiling.py (not part of the sources at hand):
  the buffer, flattened, with the tile slice and the scheme index.
\<close>

record 'a DataTile =
  tile_data :: "'a list"
  tile_slice :: Slice
  scheme_idx :: nat

text \<open>
  \<open>get_tiles\<close>: the read ranges are compiled and handed to the IO backend with the
  partition's file set. The backend (backend.py, not part of the sources at hand) is the
  parameter \<open>backend_get_tiles\<close>; it gives the tiles it would yield, or the exception
  it raises before the first one.
\<close>

definition get_tiles ::
  "(TilingScheme \<Rightarrow> FileSet \<Rightarrow> 'r \<Rightarrow> 'roi option \<Rightarrow> dtype \<Rightarrow> dtype \<Rightarrow> py_error + 'a DataTile list)
     \<Rightarrow> ('roi read_ranges_args \<Rightarrow> 'r) \<Rightarrow> BasePartition \<Rightarrow> TilingScheme \<Rightarrow> dtype
     \<Rightarrow> 'roi option \<Rightarrow> py_error + 'a DataTile list" where
  "get_tiles backend_get_tiles compile p tiling_scheme dest_dtype roi =
     (let read_ranges = get_read_ranges compile (fileset p) (start_frame p)
                          (start_frame p + num_frames p) (raw_dtype (meta p)) tiling_scheme roi
      in backend_get_tiles tiling_scheme (fileset p) read_ranges roi
           (raw_dtype (meta p)) dest_dtype)"

text \<open>\<open>np.zeros(shape)\<close>: a negative extent is refused.\<close>

definition np_zeros :: "int list \<Rightarrow> py_error + ('a::zero) list" where
  "np_zeros ds =
     (if \<exists>d \<in> set ds. d < 0 then Inl ValueError
      else Inr (replicate (nat (prod_list ds)) 0))"

definition get_macrotile ::
  "(TilingScheme \<Rightarrow> FileSet \<Rightarrow> 'r \<Rightarrow> 'roi option \<Rightarrow> dtype \<Rightarrow> dtype \<Rightarrow> py_error + ('a::zero) DataTile list)
     \<Rightarrow> ('roi read_ranges_args \<Rightarrow> 'r) \<Rightarrow> BasePartition \<Rightarrow> dtype
     \<Rightarrow> 'roi option \<Rightarrow> py_error + 'a DataTile" where
  "get_macrotile backend_get_tiles compile p dest_dtype roi =
     (let tiling_scheme = make_for_shape (Partition_shape p) (meta_shape (meta p))
      in case get_tiles backend_get_tiles compile p tiling_scheme dest_dtype roi of
           Inl e \<Rightarrow> Inl e
         | Inr (t # ts) \<Rightarrow> Inr t
         | Inr [] \<Rightarrow>
            (case origin (slice p) of
               [] \<Rightarrow> Inl IndexError
             | o0 # os \<Rightarrow>
                (let tsl = \<lparr>origin = [o0, 0, 0],
                            shape = \<lparr>dims = 0 # Shape_sig (shape (slice p)), sig_dims = 2\<rparr>\<rparr>
                 in case np_zeros (dims (shape tsl)) of
                      Inl e \<Rightarrow> Inl e
                    | Inr z \<Rightarrow> Inr \<lparr>tile_data = z, tile_slice = tsl, scheme_idx = 0\<rparr>)))"

text \<open>
  What the spec asks of a tile: a flat navigation axis, and an origin with one
  coordinate per axis of the shape.
\<close>

definition well_formed_tile :: "'a DataTile \<Rightarrow> bool" where
  "well_formed_tile t =
     (nav_dims (shape (tile_slice t)) = 1
      \<and> length (origin (tile_slice t)) = length (dims (shape (tile_slice t)))
      \<and> int (length (tile_data t)) = prod_list (dims (shape (tile_slice t))))"

section \<open>raw.py: PickUDF.merge\<close>

text \<open>
  The result buffers are a dictionary from the buffer name to the buffer, flattened.
  Both buffers of a merge are allocated by \<open>get_result_buffers\<close> with one shape;
  an in-place \<open>+=\<close> of a buffer of another size is refused here.
\<close>

definition merge ::
  "(string \<rightharpoonup> ('a::plus) list) \<Rightarrow> (string \<rightharpoonup> 'a list) \<Rightarrow> py_error + (string \<rightharpoonup> 'a list)" where
  "merge dest src =
     (case dest ''intensity'' of
        None \<Rightarrow> Inl KeyError
      | Some d \<Rightarrow>
         (case src ''intensity'' of
            None \<Rightarrow> Inl KeyError
          | Some s \<Rightarrow>
             if length s \<noteq> length d then Inl ValueError
             else Inr (dest(''intensity'' \<mapsto> map2 (+) d s))))"

section \<open>Notions for the statements\<close>

text \<open>
  A list of files can be ordered into a gap-free, non-overlapping cover when one of its
  permutations is contiguous.
\<close>

definition coverable :: "File list \<Rightarrow> bool" where
  "coverable fl = (\<exists>ys. mset ys = mset fl \<and> contiguous ys)"

text \<open>The position \<open>search_start\<close> returns, with the fallback for the case that no file is found.\<close>

definition lower_bound_of :: "FileTree \<Rightarrow> int \<Rightarrow> nat \<Rightarrow> nat" where
  "lower_bound_of t v len =
     (case find (\<lambda>e. start_idx (snd e) \<le> v \<and> v < end_idx (snd e)) t of
        Some e \<Rightarrow> fst e
      | None \<Rightarrow> (case find (\<lambda>e. v \<le> start_idx (snd e)) t of Some e \<Rightarrow> fst e | None \<Rightarrow> len))"

text \<open>What a file set says about a file, apart from its path and its handle.\<close>

definition file_descr :: "File \<Rightarrow> int \<times> int \<times> int" where
  "file_descr f = (start_idx f, end_idx f, file_header_bytes f)"

section \<open>Example data\<close>

text \<open>
  Two files of five frames each, a file that overlaps the first, a single file of ten
  frames, the file sets over them as their constructor builds them, and a partition
  slice over the frames \<open>[5, 10)\<close> of a dataset with a two-dimensional signal.
\<close>

definition file_a :: File where
  "file_a = \<lparr>path = ''a.raw'', start_idx = 0, end_idx = 5, file_header_bytes = 0, is_open = False\<rparr>"

definition file_b :: File where
  "file_b = \<lparr>path = ''b.raw'', start_idx = 5, end_idx = 10, file_header_bytes = 0, is_open = False\<rparr>"

definition file_c :: File where
  "file_c = \<lparr>path = ''c.raw'', start_idx = 3, end_idx = 8, file_header_bytes = 0, is_open = False\<rparr>"

definition file_w :: File where
  "file_w = \<lparr>path = ''w.raw'', start_idx = 0, end_idx = 10, file_header_bytes = 0, is_open = False\<rparr>"

definition fileset_ab :: FileSet where
  "fileset_ab = \<lparr>fs_files = [file_a, file_b], fs_tree = [(0, file_a), (1, file_b)],
                  files_open = False, frame_header_bytes = 0, frame_footer_bytes = 0\<rparr>"

definition fileset_w :: FileSet where
  "fileset_w = \<lparr>fs_files = [file_w], fs_tree = [(0, file_w)],
                 files_open = False, frame_header_bytes = 0, frame_footer_bytes = 0\<rparr>"

definition uint16 :: dtype where
  "uint16 = \<lparr>dt_name = ''uint16'', itemsize = 2\<rparr>"

definition meta_2d :: DataSetMeta where
  "meta_2d = \<lparr>meta_shape = \<lparr>dims = [10, 2, 2], sig_dims = 2\<rparr>,
               raw_dtype = uint16, meta_dtype = uint16\<rparr>"

definition slice_2d :: Slice where
  "slice_2d = \<lparr>origin = [5, 0, 0], shape = \<lparr>dims = [5, 2, 2], sig_dims = 2\<rparr>\<rparr>"

text \<open>
  An element type for the tiles, a read-range compiler that returns the file rows and the
  frame bounds it was given, a backend that yields no tile (every frame is excluded), a
  region of interest that excludes every frame, a partition over the frames \<open>[5, 10)\<close>
  with a three-dimensional and one with a two-dimensional signal, and the body of a
  \<open>with\<close> statement that raises.
\<close>

definition float32 :: dtype where
  "float32 = \<lparr>dt_name = ''float32'', itemsize = 4\<rparr>"

definition compile_rows ::
  "bool list read_ranges_args \<Rightarrow> (int \<times> int \<times> int \<times> int) list \<times> int \<times> int \<times> int" where
  "compile_rows args =
     (arg_fileset_arr args, arg_start_at_frame args, arg_stop_before_frame args, arg_bpp args)"

definition backend_no_tiles ::
  "TilingScheme \<Rightarrow> FileSet \<Rightarrow> (int \<times> int \<times> int \<times> int) list \<times> int \<times> int \<times> int
     \<Rightarrow> bool list option \<Rightarrow> dtype \<Rightarrow> dtype \<Rightarrow> py_error + int DataTile list" where
  "backend_no_tiles ts fs rr roi native_dtype read_dtype = Inr []"

definition roi_none :: "bool list" where
  "roi_none = replicate 10 False"

definition partition_3d :: BasePartition where
  "partition_3d =
     \<lparr>meta = \<lparr>meta_shape = \<lparr>dims = [10, 4, 4, 4], sig_dims = 3\<rparr>,
              raw_dtype = uint16, meta_dtype = uint16\<rparr>,
      slice = \<lparr>origin = [5, 0, 0, 0], shape = \<lparr>dims = [5, 4, 4, 4], sig_dims = 3\<rparr>\<rparr>,
      fileset = fileset_w, start_frame = 5, num_frames = 5\<rparr>"

definition partition_2d :: BasePartition where
  "partition_2d =
     \<lparr>meta = meta_2d, slice = slice_2d, fileset = fileset_w, start_frame = 5, num_frames = 5\<rparr>"

definition body_raises :: "FileSet \<Rightarrow> py_error + nat" where
  "body_raises fs = Inl KeyError"

section \<open>Partition: the flat navigation axis\<close>

text \<open>
  C10. The constructor of \<open>Partition\<close> raises \<open>ValueError\<close> for a partition slice whose
  shape has a navigation dimensionality other than 1, and every partition it returns
  has the slice it was given, with navigation dimensionality 1. The same holds for a
  \<open>BasePartition\<close>, whose constructor starts with the one of \<open>Partition\<close>.
\<close>

theorem Partition_init_nav_flat:
  "(nav_dims (shape sl) \<noteq> 1 \<longrightarrow> Partition_init m sl = Inl ValueError)
   \<and> (Partition_init m sl = Inr p \<longrightarrow> slice p = sl \<and> nav_dims (shape (slice p)) = 1)
   \<and> (nav_dims (shape sl) \<noteq> 1 \<longrightarrow> BasePartition_init m sl fs s n = Inl ValueError)
   \<and> (BasePartition_init m sl fs s n = Inr bp
         \<longrightarrow> slice bp = sl \<and> nav_dims (shape (slice bp)) = 1)"
  by (auto simp: Partition_init_def BasePartition_init_def split: if_splits sum.splits)

theorem Partition_init_nav_flat_witness:
  "Partition_init meta_2d \<lparr>origin = [0, 0, 0], shape = \<lparr>dims = [2, 2, 2], sig_dims = 1\<rparr>\<rparr>
     = Inl ValueError
   \<and> Partition_init meta_2d slice_2d = Inr \<lparr>meta = meta_2d, slice = slice_2d\<rparr>
   \<and> nav_dims (shape (slice \<lparr>meta = meta_2d, slice = slice_2d\<rparr>)) = 1"
proof -
  let ?bad = "\<lparr>origin = [0, 0, 0], shape = \<lparr>dims = [2, 2, 2], sig_dims = 1\<rparr>\<rparr>"
  let ?p = "\<lparr>meta = meta_2d, slice = slice_2d\<rparr>"
  have nb: "nav_dims (shape ?bad) \<noteq> 1" by (simp add: nav_dims_def Shape_nav_def)
  have a: "Partition_init meta_2d ?bad = Inl ValueError"
    using Partition_init_nav_flat [of ?bad meta_2d] nb by blast
  have g: "Partition_init meta_2d slice_2d = Inr ?p"
    by (simp add: Partition_init_def nav_dims_def Shape_nav_def slice_2d_def)
  have b: "nav_dims (shape (slice ?p)) = 1"
    using Partition_init_nav_flat [of slice_2d meta_2d ?p] g by blast
  from a g b show ?thesis by blast
qed

section \<open>make_slices: the frame ranges\<close>

lemma f_per_part_pos: "1 \<le> f_per_part shp k" by (simp add: f_per_part_def)

lemma int_div_le_of_less_mult:
  fixes x f m :: int
  assumes "0 < f" "x < (m + 1) * f"
  shows "x div f \<le> m"
proof -
  have "x = f * (x div f) + x mod f" by simp
  moreover have "0 \<le> x mod f" using assms(1) by simp
  ultimately have "f * (x div f) \<le> x" by linarith
  then have "f * (x div f) < f * (m + 1)" using assms(2) by (simp add: mult.commute)
  then have "x div f < m + 1" using assms(1) by (simp add: mult_less_cancel_left_pos)
  then show ?thesis by simp
qed

lemma loop_unfold:
  "make_slices_loop shp k s t =
     (if s \<ge> nav_size shp then []
      else (\<lparr>origin = s # replicate (sig_dims shp) 0,
              shape = \<lparr>dims = (min t (nav_size shp) - s) # Shape_sig shp, sig_dims = sig_dims shp\<rparr>\<rparr>,
            s, min t (nav_size shp))
           # make_slices_loop shp k (s + f_per_part shp k) (t + f_per_part shp k))"
  by (subst make_slices_loop.simps) (simp add: Let_def f_per_part_def)

lemma loop_induct [case_names step]:
  assumes step: "\<And>s t. (s < nav_size shp \<Longrightarrow> P (s + f_per_part shp k) (t + f_per_part shp k)) \<Longrightarrow> P s t"
  shows "P s t"
proof (induction "nat (nav_size shp - s)" arbitrary: s t rule: less_induct)
  case (less s t)
  show ?case
  proof (rule step)
    assume "s < nav_size shp"
    then have "nat (nav_size shp - (s + f_per_part shp k)) < nat (nav_size shp - s)"
      using f_per_part_pos [of shp k] by linarith
    then show "P (s + f_per_part shp k) (t + f_per_part shp k)" by (rule less)
  qed
qed

lemma loop_bounds:
  "(sl, a, b) \<in> set (make_slices_loop shp k s t) \<Longrightarrow>
     s \<le> a \<and> a < nav_size shp \<and> b = min (a + (t - s)) (nav_size shp) \<and>
     sl = \<lparr>origin = a # replicate (sig_dims shp) 0,
           shape = \<lparr>dims = (b - a) # Shape_sig shp, sig_dims = sig_dims shp\<rparr>\<rparr>"
proof (induction s t rule: loop_induct [where shp = shp and k = k])
  case (step s t)
  have fp: "1 \<le> f_per_part shp k" by (rule f_per_part_pos)
  show ?case
  proof (cases "s < nav_size shp")
    case True
    from step.prems consider "(sl, a, b) = (\<lparr>origin = s # replicate (sig_dims shp) 0,
              shape = \<lparr>dims = (min t (nav_size shp) - s) # Shape_sig shp, sig_dims = sig_dims shp\<rparr>\<rparr>,
            s, min t (nav_size shp))"
      | "(sl, a, b) \<in> set (make_slices_loop shp k (s + f_per_part shp k) (t + f_per_part shp k))"
      using True by (subst (asm) loop_unfold) auto
    then show ?thesis
    proof cases
      case 1
      then show ?thesis using True by simp
    next
      case 2
      from step.IH [OF True 2] show ?thesis using fp by simp
    qed
  next
    case False
    with step.prems show ?thesis by (subst (asm) loop_unfold) simp
  qed
qed

lemma loop_union:
  "0 < t - s \<Longrightarrow> t - s \<le> f_per_part shp k \<Longrightarrow>
   (\<Union>(a, b) \<in> set (ranges (make_slices_loop shp k s t)). {a..<b}) \<subseteq> {s..<nav_size shp}"
  by (auto simp: ranges_def dest!: loop_bounds)

lemma loop_covers:
  "t - s = f_per_part shp k \<Longrightarrow> s \<le> x \<Longrightarrow> x < nav_size shp \<Longrightarrow>
   \<exists>(a, b) \<in> set (ranges (make_slices_loop shp k s t)). a \<le> x \<and> x < b"
proof (induction s t rule: loop_induct [where shp = shp and k = k])
  case (step s t)
  have lt: "s < nav_size shp" using step.prems by simp
  show ?case
  proof (cases "x < t")
    case True
    then show ?thesis using step.prems lt
      by (subst loop_unfold) (simp add: ranges_def)
  next
    case False
    then have "\<exists>(a, b) \<in> set (ranges (make_slices_loop shp k (s + f_per_part shp k) (t + f_per_part shp k))). a \<le> x \<and> x < b"
      using step.prems by (intro step.IH [OF lt]) auto
    then show ?thesis using lt by (subst loop_unfold) (auto simp: ranges_def)
  qed
qed

lemma loop_sorted:
  "0 < t - s \<Longrightarrow> t - s \<le> f_per_part shp k \<Longrightarrow>
   sorted_wrt (\<lambda>(a, b) (c, d). b \<le> c) (ranges (make_slices_loop shp k s t))"
proof (induction s t rule: loop_induct [where shp = shp and k = k])
  case (step s t)
  show ?case
  proof (cases "s < nav_size shp")
    case True
    have "sorted_wrt (\<lambda>(a, b) (c, d). b \<le> c) (ranges (make_slices_loop shp k (s + f_per_part shp k) (t + f_per_part shp k)))"
      using step.prems by (intro step.IH [OF True]) auto
    moreover have "\<forall>(c, d) \<in> set (ranges (make_slices_loop shp k (s + f_per_part shp k) (t + f_per_part shp k))). min t (nav_size shp) \<le> c"
      using step.prems by (auto simp: ranges_def dest!: loop_bounds)
    ultimately show ?thesis using True
      by (subst loop_unfold) (auto simp: ranges_def)
  next
    case False
    then show ?thesis by (subst loop_unfold) (simp add: ranges_def)
  qed
qed

lemma loop_butlast:
  "t - s = f_per_part shp k \<Longrightarrow>
   (a, b) \<in> set (butlast (ranges (make_slices_loop shp k s t))) \<Longrightarrow> b - a = f_per_part shp k"
proof (induction s t rule: loop_induct [where shp = shp and k = k])
  case (step s t)
  let ?rest = "make_slices_loop shp k (s + f_per_part shp k) (t + f_per_part shp k)"
  show ?case
  proof (cases "s < nav_size shp")
    case True
    have eq: "ranges (make_slices_loop shp k s t) = (s, min t (nav_size shp)) # ranges ?rest"
      using True by (subst loop_unfold) (simp add: ranges_def)
    show ?thesis
    proof (cases "?rest = []")
      case True
      with eq step.prems show ?thesis by (simp add: ranges_def)
    next
      case False
      then have "s + f_per_part shp k < nav_size shp"
        by (subst (asm) loop_unfold) (simp split: if_splits)
      then have m: "min t (nav_size shp) = t" using step.prems by simp
      from step.prems(2) eq False consider "(a, b) = (s, t)" | "(a, b) \<in> set (butlast (ranges ?rest))"
        by (auto simp: m ranges_def)
      then show ?thesis
      proof cases
        case 1 then show ?thesis using step.prems by simp
      next
        case 2 then show ?thesis using step.IH [OF True] step.prems by simp
      qed
    qed
  next
    case False
    with step.prems show ?thesis by (subst (asm) loop_unfold) (simp add: ranges_def)
  qed
qed

lemma loop_length:
  "length (make_slices_loop shp k s t)
     = nat ((nav_size shp - s + f_per_part shp k - 1) div f_per_part shp k)"
proof (induction s t rule: loop_induct [where shp = shp and k = k])
  case (step s t)
  let ?n = "nav_size shp" and ?f = "f_per_part shp k"
  have fp: "1 \<le> ?f" by (rule f_per_part_pos)
  show ?case
  proof (cases "s < ?n")
    case False
    then have "?n - s + ?f - 1 < ?f" by simp
    then have "(?n - s + ?f - 1) div ?f \<le> 0"
      using fp int_div_le_of_less_mult [of ?f "?n - s + ?f - 1" 0] by simp
    with False show ?thesis by (subst loop_unfold) simp
  next
    case True
    have "(?n - s + ?f - 1) div ?f = (?n - (s + ?f) + ?f - 1) div ?f + 1"
    proof -
      have "?n - s + ?f - 1 = (?n - (s + ?f) + ?f - 1) + ?f" by simp
      then show ?thesis using fp by (metis div_add_self2 not_one_le_zero)
    qed
    moreover have "0 \<le> (?n - (s + ?f) + ?f - 1) div ?f"
      using True fp by (simp add: pos_imp_zdiv_nonneg_iff)
    ultimately show ?thesis using True step.IH [OF True]
      by (subst loop_unfold) (simp add: nat_add_distrib)
  qed
qed

lemma make_slices_count_bound:
  fixes n k :: int
  assumes "1 \<le> k"
  shows "(n + max 1 (n div k) - 1) div max 1 (n div k) \<le> 2 * k - 1"
proof (cases "1 \<le> n div k")
  case True
  define f where "f = n div k"
  have f: "1 \<le> f" using True by (simp add: f_def)
  have "n = k * f + n mod k" by (simp add: f_def)
  moreover have "n mod k < k" using assms by simp
  ultimately have n: "n \<le> k * f + k - 1" by linarith
  have "0 \<le> (k - 1) * (f - 1)" using assms f by simp
  then have "k + f - 1 \<le> k * f" by (simp add: algebra_simps)
  with n have "n + f - 1 < (2 * k - 1 + 1) * f" by (simp add: algebra_simps)
  then have "(n + f - 1) div f \<le> 2 * k - 1"
    using f by (intro int_div_le_of_less_mult) auto
  then show ?thesis using True by (simp add: f_def max_def)
next
  case False
  then have "n div k \<le> 0" by simp
  then have "n < k" using assms pos_imp_zdiv_pos_iff [of k n] by linarith
  then show ?thesis using False assms by (simp add: max_def)
qed

lemma make_slices_count_dvd:
  fixes n k :: int
  assumes "1 \<le> k" "k dvd n"
  shows "(n + max 1 (n div k) - 1) div max 1 (n div k) \<le> k"
proof (cases "1 \<le> n div k")
  case True
  define f where "f = n div k"
  have f: "1 \<le> f" using True by (simp add: f_def)
  have "n = k * f" using assms(2) by (simp add: f_def)
  then have "n + f - 1 < (k + 1) * f" using f by (simp add: algebra_simps)
  then have "(n + f - 1) div f \<le> k"
    using f by (intro int_div_le_of_less_mult) auto
  then show ?thesis using True by (simp add: f_def max_def)
next
  case False
  then have "n div k \<le> 0" by simp
  then have "n < k" using assms pos_imp_zdiv_pos_iff [of k n] by linarith
  then show ?thesis using False assms by (simp add: max_def)
qed

lemma make_slices_5_2:
  "make_slices \<lparr>dims = [5, 2, 2], sig_dims = 2\<rparr> 2 =
     Inr [(\<lparr>origin = [0, 0, 0], shape = \<lparr>dims = [2, 2, 2], sig_dims = 2\<rparr>\<rparr>, 0, 2),
          (\<lparr>origin = [2, 0, 0], shape = \<lparr>dims = [2, 2, 2], sig_dims = 2\<rparr>\<rparr>, 2, 4),
          (\<lparr>origin = [4, 0, 0], shape = \<lparr>dims = [1, 2, 2], sig_dims = 2\<rparr>\<rparr>, 4, 5)]"
  by (simp add: make_slices_def make_slices_loop.simps [of _ _ 0] make_slices_loop.simps [of _ _ 2]
        make_slices_loop.simps [of _ _ 4] make_slices_loop.simps [of _ _ 6]
        nav_size_def Shape_nav_def Shape_sig_def Let_def numeral_2_eq_2)

text \<open>
  C1, as the claim states it, fails: five frames asked into two partitions come out as
  the three ranges \<open>[0,2)\<close>, \<open>[2,4)\<close>, \<open>[4,5)\<close>, since the step is the rounded-down
  quotient and the remainder gets a range of its own.
\<close>

theorem make_slices_count_counterexample:
  "\<not> isl (make_slices \<lparr>dims = [5, 2, 2], sig_dims = 2\<rparr> 2)
   \<and> \<not> int (length (projr (make_slices \<lparr>dims = [5, 2, 2], sig_dims = 2\<rparr> 2))) \<le> 2"
  by (simp add: make_slices_5_2)

text \<open>
  C1, amended. For every shape with \<open>num_frames\<close> navigation positions and every
  partition count \<open>k >= 1\<close>, \<open>make_slices\<close> returns at most \<open>2 * k - 1\<close> ranges (at most
  \<open>k\<close> when \<open>k\<close> divides \<open>num_frames\<close>). Every range is non-empty and lies in
  \<open>[0, num_frames)\<close>, with the slice of that origin and extent; the ranges are in
  ascending order and do not overlap; their union is exactly \<open>[0, num_frames)\<close>; every
  range but the last has \<open>f_per_part\<close> frames, and the last has no more.
\<close>

theorem make_slices_ranges:
  assumes "1 \<le> k"
  shows "\<exists>rs. make_slices shp k = Inr rs
     \<and> int (length rs) \<le> 2 * k - 1
     \<and> (k dvd nav_size shp \<longrightarrow> int (length rs) \<le> k)
     \<and> (\<forall>(sl, a, b) \<in> set rs. 0 \<le> a \<and> a < b \<and> b \<le> nav_size shp
           \<and> sl = \<lparr>origin = a # replicate (sig_dims shp) 0,
                   shape = \<lparr>dims = (b - a) # Shape_sig shp, sig_dims = sig_dims shp\<rparr>\<rparr>)
     \<and> sorted_wrt (\<lambda>(a, b) (c, d). b \<le> c) (ranges rs)
     \<and> (\<Union>(a, b) \<in> set (ranges rs). {a..<b}) = {0..<nav_size shp}
     \<and> (\<forall>(a, b) \<in> set (ranges rs). b - a \<le> f_per_part shp k)
     \<and> (\<forall>(a, b) \<in> set (butlast (ranges rs)). b - a = f_per_part shp k)"
proof -
  let ?f = "f_per_part shp k" and ?n = "nav_size shp"
  let ?rs = "make_slices_loop shp k 0 ?f"
  have fp: "1 \<le> ?f" by (rule f_per_part_pos)
  have res: "make_slices shp k = Inr ?rs"
    using assms by (simp add: make_slices_def f_per_part_def)
  have len: "int (length ?rs) = (if 0 \<le> (?n + ?f - 1) div ?f then (?n + ?f - 1) div ?f else 0)"
    by (simp add: loop_length)
  have "(?n + ?f - 1) div ?f \<le> 2 * k - 1"
    unfolding f_per_part_def by (rule make_slices_count_bound [OF assms])
  then have c1: "int (length ?rs) \<le> 2 * k - 1"
    using assms by (simp add: len)
  have "k dvd ?n \<Longrightarrow> (?n + ?f - 1) div ?f \<le> k"
    unfolding f_per_part_def by (rule make_slices_count_dvd [OF assms])
  then have c2: "k dvd ?n \<longrightarrow> int (length ?rs) \<le> k"
    using assms by (simp add: len)
  have b: "\<forall>(sl, a, b) \<in> set ?rs. 0 \<le> a \<and> a < b \<and> b \<le> ?n
           \<and> sl = \<lparr>origin = a # replicate (sig_dims shp) 0,
                   shape = \<lparr>dims = (b - a) # Shape_sig shp, sig_dims = sig_dims shp\<rparr>\<rparr>"
    using fp by (auto dest!: loop_bounds)
  have s: "sorted_wrt (\<lambda>(a, b) (c, d). b \<le> c) (ranges ?rs)"
    using fp by (intro loop_sorted) auto
  have u: "(\<Union>(a, b) \<in> set (ranges ?rs). {a..<b}) = {0..<?n}"
  proof
    show "(\<Union>(a, b) \<in> set (ranges ?rs). {a..<b}) \<subseteq> {0..<?n}"
      using fp by (intro loop_union) auto
    show "{0..<?n} \<subseteq> (\<Union>(a, b) \<in> set (ranges ?rs). {a..<b})"
    proof
      fix x assume "x \<in> {0..<?n}"
      then have "\<exists>(a, b) \<in> set (ranges ?rs). a \<le> x \<and> x < b"
        by (intro loop_covers) auto
      then obtain a b where "(a, b) \<in> set (ranges ?rs)" "a \<le> x" "x < b" by auto
      then show "x \<in> (\<Union>(a, b) \<in> set (ranges ?rs). {a..<b})" by force
    qed
  qed
  have l: "\<forall>(a, b) \<in> set (ranges ?rs). b - a \<le> ?f"
    by (auto simp: ranges_def dest!: loop_bounds)
  have bl: "\<forall>(a, b) \<in> set (butlast (ranges ?rs)). b - a = ?f"
    using loop_butlast [of ?f 0 shp k] by auto
  from res c1 c2 b s u l bl show ?thesis by blast
qed

theorem make_slices_ranges_witness:
  "(1::int) \<le> 2
   \<and> (\<exists>rs. make_slices \<lparr>dims = [5, 2, 2], sig_dims = 2\<rparr> 2 = Inr rs
        \<and> int (length rs) \<le> 3
        \<and> ranges rs = [(0, 2), (2, 4), (4, 5)]
        \<and> (\<Union>(a, b) \<in> set (ranges rs). {a..<b}) = {0..<5})"
proof -
  let ?S = "\<lparr>dims = [5, 2, 2], sig_dims = 2\<rparr>"
  have h: "(1::int) \<le> 2" by simp
  have n: "nav_size ?S = 5" by (simp add: nav_size_def Shape_nav_def)
  from make_slices_ranges [OF h, of ?S] obtain rs where
    rs: "make_slices ?S 2 = Inr rs" "int (length rs) \<le> 2 * 2 - 1"
      "(\<Union>(a, b) \<in> set (ranges rs). {a..<b}) = {0..<nav_size ?S}"
    by blast
  from rs(1) have "ranges rs = [(0, 2), (2, 4), (4, 5)]"
    by (auto simp: make_slices_5_2 ranges_def)
  with rs h n show ?thesis by simp
qed

section \<open>FileSet: contiguous file lists\<close>

lemma contiguous_tl: "contiguous (f # fs) \<Longrightarrow> contiguous fs"
  by (cases fs) auto

lemma contiguous_hd: "contiguous (f # fs) \<Longrightarrow> start_idx f < end_idx f"
  by (cases fs) auto

lemma contiguous_later:
  "contiguous (f # fs) \<Longrightarrow> g \<in> set fs \<Longrightarrow> end_idx f \<le> start_idx g"
proof (induction fs arbitrary: f)
  case Nil
  then show ?case by simp
next
  case (Cons h hs)
  from Cons.prems(1) have e: "end_idx f = start_idx h" and c: "contiguous (h # hs)" by auto
  show ?case
  proof (cases "g = h")
    case True
    with e show ?thesis by simp
  next
    case False
    with Cons.prems(2) have "g \<in> set hs" by simp
    from Cons.IH [OF c this] contiguous_hd [OF c] e show ?thesis by simp
  qed
qed

lemma contiguous_all_nonempty: "contiguous fs \<Longrightarrow> g \<in> set fs \<Longrightarrow> start_idx g < end_idx g"
proof (induction fs)
  case Nil
  then show ?case by simp
next
  case (Cons f fs)
  then show ?case using contiguous_hd [OF Cons.prems(1)] contiguous_tl [OF Cons.prems(1)] by auto
qed

lemma contiguous_sorted_strict:
  "contiguous fs \<Longrightarrow> sorted_wrt (\<lambda>f g. start_idx f < start_idx g) fs"
proof (induction fs)
  case Nil
  then show ?case by simp
next
  case (Cons f fs)
  have "\<forall>g \<in> set fs. start_idx f < start_idx g"
    using contiguous_later [OF Cons.prems] contiguous_hd [OF Cons.prems] by fastforce
  then show ?case using Cons.IH contiguous_tl [OF Cons.prems] by simp
qed

lemma contiguous_sorted: "contiguous fs \<Longrightarrow> sorted (map start_idx fs)"
proof -
  assume "contiguous fs"
  then have "sorted_wrt (\<lambda>f g. start_idx f < start_idx g) fs" by (rule contiguous_sorted_strict)
  then have "sorted_wrt (\<lambda>f g. start_idx f \<le> start_idx g) fs"
    by (rule sorted_wrt_mono_rel [rotated]) simp
  then show ?thesis by (simp add: sorted_map)
qed

lemma contiguous_distinct: "contiguous fs \<Longrightarrow> distinct (map start_idx fs)"
proof -
  assume "contiguous fs"
  then have "sorted_wrt (\<lambda>f g. start_idx f < start_idx g) fs" by (rule contiguous_sorted_strict)
  then have "sorted_wrt (<) (map start_idx fs)" by (simp add: sorted_wrt_map)
  then show ?thesis by (simp add: strict_sorted_iff)
qed

lemma sort_enumerate_contiguous:
  "contiguous fs \<Longrightarrow> sort_key (\<lambda>e. start_idx (snd e)) (enumerate 0 fs) = enumerate 0 fs"
proof (rule sort_key_id_if_sorted)
  assume "contiguous fs"
  have "map start_idx (map snd (enumerate 0 fs)) = map start_idx fs"
    by (simp only: map_snd_enumerate)
  then have "map (\<lambda>e. start_idx (snd e)) (enumerate 0 fs) = map start_idx fs"
    by (simp only: map_map comp_def)
  then show "sorted (map (\<lambda>e. start_idx (snd e)) (enumerate 0 fs))"
    using contiguous_sorted [OF \<open>contiguous fs\<close>] by simp
qed

lemma FileSet_init_contiguous:
  "contiguous fs \<Longrightarrow> fs \<noteq> [] \<Longrightarrow>
   FileSet_init fs fhb ffb = Inr \<lparr>fs_files = fs, fs_tree = enumerate 0 fs, files_open = False,
                                frame_header_bytes = fhb, frame_footer_bytes = ffb\<rparr>"
  by (simp add: FileSet_init_def FileTree_make_def sort_enumerate_contiguous)

lemma search_start_lower_bound: "fst (search_start t v) = lower_bound_of t v (length t)"
  by (simp add: search_start_def lower_bound_of_def split: option.splits)

lemma find_enumerate_None:
  "(find (\<lambda>e. P (snd e)) (enumerate n xs) = None) = (\<forall>x \<in> set xs. \<not> P x)"
proof -
  have "snd ` set (enumerate n xs) = set xs"
    by (metis map_snd_enumerate set_map)
  then show ?thesis by (force simp: find_None_iff)
qed

lemma lower_bound_contiguous:
  "contiguous fs \<Longrightarrow>
   lower_bound_of (enumerate n fs) v (n + length fs)
     = n + length (takeWhile (\<lambda>f. end_idx f \<le> v) fs)"
proof (induction fs arbitrary: n)
  case Nil
  then show ?case by (simp add: lower_bound_of_def)
next
  case (Cons f fs)
  have c: "contiguous fs" using Cons.prems by (rule contiguous_tl)
  have fne: "start_idx f < end_idx f" using Cons.prems by (rule contiguous_hd)
  consider "start_idx f \<le> v \<and> v < end_idx f" | "end_idx f \<le> v" | "v < start_idx f"
    by linarith
  then show ?case
  proof cases
    case 1
    then show ?thesis by (simp add: lower_bound_of_def)
  next
    case 2
    then have "lower_bound_of (enumerate n (f # fs)) v (n + length (f # fs))
                 = lower_bound_of (enumerate (Suc n) fs) v (Suc n + length fs)"
      using fne by (simp add: lower_bound_of_def split: option.splits)
    with Cons.IH [OF c, of "Suc n"] 2 show ?thesis by simp
  next
    case 3
    have "\<forall>g \<in> set fs. \<not> (start_idx g \<le> v \<and> v < end_idx g)"
      using contiguous_later [OF Cons.prems] fne 3 by fastforce
    then have "find (\<lambda>e. start_idx (snd e) \<le> v \<and> v < end_idx (snd e)) (enumerate (Suc n) fs) = None"
      by (simp add: find_enumerate_None [where P = "\<lambda>g. start_idx g \<le> v \<and> v < end_idx g"])
    with 3 fne show ?thesis by (simp add: lower_bound_of_def)
  qed
qed

lemma drop_as_map_nth: "map (\<lambda>idx. xs ! idx) [k..<length xs] = drop k xs"
  by (rule nth_equalityI) auto

lemma files_from_contiguous:
  assumes "contiguous fs"
  shows "files_from \<lparr>fs_files = fs, fs_tree = enumerate 0 fs, files_open = b,
                      frame_header_bytes = fhb, frame_footer_bytes = ffb\<rparr> v
           = dropWhile (\<lambda>f. end_idx f \<le> v) fs"
proof -
  have "fst (search_start (enumerate 0 fs) v) = length (takeWhile (\<lambda>f. end_idx f \<le> v) fs)"
    using lower_bound_contiguous [OF assms, of 0 v] by (simp add: search_start_lower_bound)
  then show ?thesis
    by (simp add: files_from_def case_prod_beta drop_as_map_nth dropWhile_eq_drop)
qed

lemma files_until_takeWhile: "files_until stop xs = takeWhile (\<lambda>f. start_idx f \<le> stop) xs"
  by (induction xs) auto

lemma contiguous_takeWhile_start:
  "contiguous fs \<Longrightarrow>
   takeWhile (\<lambda>f. start_idx f \<le> b) fs = filter (\<lambda>f. start_idx f \<le> b) fs"
proof (induction fs)
  case Nil
  then show ?case by simp
next
  case (Cons f fs)
  show ?case
  proof (cases "start_idx f \<le> b")
    case True
    then show ?thesis using Cons.IH contiguous_tl [OF Cons.prems] by simp
  next
    case False
    have "\<forall>g \<in> set fs. \<not> start_idx g \<le> b"
      using contiguous_later [OF Cons.prems] contiguous_hd [OF Cons.prems] False by fastforce
    then have "filter (\<lambda>f. start_idx f \<le> b) fs = []" by (simp add: filter_empty_conv)
    with False show ?thesis by simp
  qed
qed

lemma contiguous_scan:
  "contiguous fs \<Longrightarrow>
   takeWhile (\<lambda>f. start_idx f \<le> b) (dropWhile (\<lambda>f. end_idx f \<le> a) fs)
     = filter (\<lambda>f. a < end_idx f \<and> start_idx f \<le> b) fs"
proof (induction fs)
  case Nil
  then show ?case by simp
next
  case (Cons f fs)
  have c: "contiguous fs" using Cons.prems by (rule contiguous_tl)
  show ?case
  proof (cases "end_idx f \<le> a")
    case True
    then show ?thesis using Cons.IH [OF c] by simp
  next
    case False
    have later: "\<forall>g \<in> set fs. a < end_idx g"
      using contiguous_later [OF Cons.prems] contiguous_all_nonempty [OF c] False by fastforce
    then have "filter (\<lambda>f. a < end_idx f \<and> start_idx f \<le> b) fs = filter (\<lambda>f. start_idx f \<le> b) fs"
      by (intro filter_cong) auto
    moreover have "filter (\<lambda>f. a < end_idx f \<and> start_idx f \<le> b) (f # fs)
                     = filter (\<lambda>f. start_idx f \<le> b) (f # fs)"
      using later False by (intro filter_cong) auto
    ultimately show ?thesis
      using False contiguous_takeWhile_start [OF Cons.prems, of b] by simp
  qed
qed

lemma contiguous_dropWhile: "contiguous fs \<Longrightarrow> contiguous (dropWhile P fs)"
  by (induction fs) (auto dest: contiguous_tl)

lemma contiguous_takeWhile: "contiguous fs \<Longrightarrow> contiguous (takeWhile P fs)"
proof (induction fs rule: contiguous.induct)
  case 1
  then show ?case by simp
next
  case (2 f)
  then show ?case by simp
next
  case (3 f g fs)
  then show ?case by (cases "P g") auto
qed

lemma contiguous_filter_overlap:
  "contiguous fs \<Longrightarrow> contiguous (filter (\<lambda>f. a < end_idx f \<and> start_idx f \<le> b) fs)"
  using contiguous_takeWhile [OF contiguous_dropWhile, of fs "\<lambda>f. start_idx f \<le> b" "\<lambda>f. end_idx f \<le> a"]
  by (simp add: contiguous_scan)

lemma get_files_for_range_contiguous:
  assumes "contiguous fs"
  shows "get_files_for_range \<lparr>fs_files = fs, fs_tree = enumerate 0 fs, files_open = op,
                      frame_header_bytes = fhb, frame_footer_bytes = ffb\<rparr> a b
           = (if filter (\<lambda>f. a < end_idx f \<and> start_idx f \<le> b) fs = [] then Inl AssertionError
              else Inr (filter (\<lambda>f. a < end_idx f \<and> start_idx f \<le> b) fs))"
  by (simp add: get_files_for_range_def files_from_contiguous [OF assms] files_until_takeWhile
        contiguous_scan [OF assms] Let_def)

lemma get_for_range_contiguous:
  assumes "contiguous fs"
  shows "get_for_range \<lparr>fs_files = fs, fs_tree = enumerate 0 fs, files_open = op,
                      frame_header_bytes = fhb, frame_footer_bytes = ffb\<rparr> a b
           = (if filter (\<lambda>f. a < end_idx f \<and> start_idx f \<le> b) fs = [] then Inl AssertionError
              else Inr \<lparr>fs_files = filter (\<lambda>f. a < end_idx f \<and> start_idx f \<le> b) fs,
                        fs_tree = enumerate 0 (filter (\<lambda>f. a < end_idx f \<and> start_idx f \<le> b) fs),
                        files_open = False,
                        frame_header_bytes = fhb, frame_footer_bytes = ffb\<rparr>)"
  using FileSet_init_contiguous [OF contiguous_filter_overlap [OF assms, of a b], of fhb ffb]
  by (simp add: get_for_range_def get_files_for_range_contiguous [OF assms])

lemma contiguous_covers:
  "contiguous fs \<Longrightarrow> fs \<noteq> [] \<Longrightarrow> start_idx (hd fs) \<le> x \<Longrightarrow> x < end_idx (last fs) \<Longrightarrow>
   \<exists>f \<in> set fs. start_idx f \<le> x \<and> x < end_idx f"
proof (induction fs rule: contiguous.induct)
  case 1
  then show ?case by simp
next
  case (2 f)
  then show ?case by simp
next
  case (3 f g fs)
  show ?case
  proof (cases "x < end_idx f")
    case True
    with 3 show ?thesis by simp
  next
    case False
    with 3 show ?thesis by auto
  qed
qed

lemma contiguous_ab: "contiguous [file_a, file_b]"
  by (simp add: file_a_def file_b_def)

lemma FileSet_init_ab: "FileSet_init [file_a, file_b] 0 0 = Inr fileset_ab"
  by (simp add: FileSet_init_def FileTree_make_def sort_key_def fileset_ab_def file_a_def file_b_def)

lemma FileSet_init_w: "FileSet_init [file_w] 0 0 = Inr fileset_w"
  by (simp add: FileSet_init_def FileTree_make_def sort_key_def fileset_w_def file_w_def)

section \<open>FileSet: restriction to a frame range\<close>

lemma FileSet_init_Inr:
  assumes "contiguous fl" "FileSet_init fl fhb ffb = Inr F"
  shows "fl \<noteq> [] \<and> F = \<lparr>fs_files = fl, fs_tree = enumerate 0 fl, files_open = False,
                           frame_header_bytes = fhb, frame_footer_bytes = ffb\<rparr>"
proof -
  have ne: "fl \<noteq> []" using assms(2) by (auto simp: FileSet_init_def)
  with assms FileSet_init_contiguous [OF assms(1) ne, of fhb ffb] show ?thesis by simp
qed

lemma overlap_closed_iff:
  fixes s e a b :: int
  assumes "s < e" "a \<le> b"
  shows "(\<exists>x. s \<le> x \<and> x < e \<and> a \<le> x \<and> x \<le> b) = (a < e \<and> s \<le> b)"
proof
  assume "\<exists>x. s \<le> x \<and> x < e \<and> a \<le> x \<and> x \<le> b"
  then show "a < e \<and> s \<le> b" by auto
next
  assume h: "a < e \<and> s \<le> b"
  have "s \<le> max s a \<and> max s a < e \<and> a \<le> max s a \<and> max s a \<le> b"
    using assms h by auto
  then show "\<exists>x. s \<le> x \<and> x < e \<and> a \<le> x \<and> x \<le> b" by blast
qed

text \<open>
  C2. For a file set built from contiguous, non-overlapping file ranges, given in
  ascending order, \<open>get_for_range(a, b)\<close> returns the file set of exactly the files with
  \<open>a < end_idx\<close> and \<open>start_idx <= b\<close>, in the order of the original list; for \<open>a <= b\<close>
  these are the files with a frame in the closed interval \<open>[a, b]\<close>. A returned file
  set is never empty and ascends strictly in \<open>start_idx\<close>. For \<open>a <= b\<close> inside the
  covered frames the call returns; when no file qualifies, the call fails on the
  assertion of \<open>_get_files_for_range\<close>.
\<close>

theorem get_for_range_overlapping:
  assumes "contiguous fl" and "FileSet_init fl fhb ffb = Inr F"
  shows "get_for_range F a b =
           (if filter (\<lambda>f. a < end_idx f \<and> start_idx f \<le> b) fl = [] then Inl AssertionError
            else FileSet_init (filter (\<lambda>f. a < end_idx f \<and> start_idx f \<le> b) fl) fhb ffb)
     \<and> (\<forall>G. get_for_range F a b = Inr G \<longrightarrow>
           fs_files G = filter (\<lambda>f. a < end_idx f \<and> start_idx f \<le> b) fl
         \<and> (a \<le> b \<longrightarrow> set (fs_files G)
               = {f \<in> set fl. \<exists>x. start_idx f \<le> x \<and> x < end_idx f \<and> a \<le> x \<and> x \<le> b})
         \<and> fs_files G \<noteq> []
         \<and> sorted_wrt (\<lambda>f g. start_idx f < start_idx g) (fs_files G))
     \<and> (a \<le> b \<and> start_idx (hd fl) \<le> a \<and> b < end_idx (last fl)
           \<longrightarrow> (\<exists>G. get_for_range F a b = Inr G))
     \<and> ((\<forall>f \<in> set fl. \<not> (a < end_idx f \<and> start_idx f \<le> b))
           \<longrightarrow> get_for_range F a b = Inl AssertionError)"
proof -
  let ?ov = "\<lambda>f. a < end_idx f \<and> start_idx f \<le> b"
  from FileSet_init_Inr [OF assms] have ne: "fl \<noteq> []"
    and F: "F = \<lparr>fs_files = fl, fs_tree = enumerate 0 fl, files_open = False,
                 frame_header_bytes = fhb, frame_footer_bytes = ffb\<rparr>" by auto
  have cf: "contiguous (filter ?ov fl)" using assms(1) by (rule contiguous_filter_overlap)
  have g: "get_for_range F a b =
             (if filter ?ov fl = [] then Inl AssertionError
              else Inr \<lparr>fs_files = filter ?ov fl, fs_tree = enumerate 0 (filter ?ov fl),
                        files_open = False, frame_header_bytes = fhb, frame_footer_bytes = ffb\<rparr>)"
    unfolding F by (rule get_for_range_contiguous [OF assms(1)])
  have 1: "get_for_range F a b =
           (if filter ?ov fl = [] then Inl AssertionError else FileSet_init (filter ?ov fl) fhb ffb)"
    using g FileSet_init_contiguous [OF cf, of fhb ffb] by simp
  have set_eq: "a \<le> b \<Longrightarrow> set (filter ?ov fl)
               = {f \<in> set fl. \<exists>x. start_idx f \<le> x \<and> x < end_idx f \<and> a \<le> x \<and> x \<le> b}"
    using contiguous_all_nonempty [OF assms(1)] by (auto simp: overlap_closed_iff)
  have 2: "\<forall>G. get_for_range F a b = Inr G \<longrightarrow>
           fs_files G = filter ?ov fl
         \<and> (a \<le> b \<longrightarrow> set (fs_files G)
               = {f \<in> set fl. \<exists>x. start_idx f \<le> x \<and> x < end_idx f \<and> a \<le> x \<and> x \<le> b})
         \<and> fs_files G \<noteq> []
         \<and> sorted_wrt (\<lambda>f g. start_idx f < start_idx g) (fs_files G)"
  proof (intro allI impI)
    fix G assume "get_for_range F a b = Inr G"
    with g have nz: "filter ?ov fl \<noteq> []" and G: "fs_files G = filter ?ov fl"
      by (auto split: if_splits)
    from G nz set_eq contiguous_sorted_strict [OF cf]
    show "fs_files G = filter ?ov fl
         \<and> (a \<le> b \<longrightarrow> set (fs_files G)
               = {f \<in> set fl. \<exists>x. start_idx f \<le> x \<and> x < end_idx f \<and> a \<le> x \<and> x \<le> b})
         \<and> fs_files G \<noteq> []
         \<and> sorted_wrt (\<lambda>f g. start_idx f < start_idx g) (fs_files G)" by simp
  qed
  have 3: "a \<le> b \<and> start_idx (hd fl) \<le> a \<and> b < end_idx (last fl)
           \<longrightarrow> (\<exists>G. get_for_range F a b = Inr G)"
  proof
    assume h: "a \<le> b \<and> start_idx (hd fl) \<le> a \<and> b < end_idx (last fl)"
    then obtain f where "f \<in> set fl" "start_idx f \<le> a" "a < end_idx f"
      using contiguous_covers [OF assms(1) ne, of a] by auto
    then have "f \<in> set (filter ?ov fl)" using h by simp
    then have "filter ?ov fl \<noteq> []" by (metis empty_iff empty_set)
    with g show "\<exists>G. get_for_range F a b = Inr G" by simp
  qed
  have 4: "(\<forall>f \<in> set fl. \<not> ?ov f) \<longrightarrow> get_for_range F a b = Inl AssertionError"
    using g by (simp add: filter_empty_conv)
  from 1 2 3 4 show ?thesis by blast
qed

theorem get_for_range_overlapping_witness:
  "contiguous [file_a, file_b] \<and> FileSet_init [file_a, file_b] 0 0 = Inr fileset_ab
   \<and> (\<exists>G. get_for_range fileset_ab 6 7 = Inr G \<and> fs_files G = [file_b])
   \<and> (\<exists>G. get_for_range fileset_ab 4 5 = Inr G \<and> fs_files G = [file_a, file_b])
   \<and> get_for_range fileset_ab 10 12 = Inl AssertionError"
proof -
  note t = get_for_range_overlapping [OF contiguous_ab FileSet_init_ab]
  have 1: "\<exists>G. get_for_range fileset_ab 6 7 = Inr G \<and> fs_files G = [file_b]"
  proof -
    have "(6::int) \<le> 7 \<and> start_idx (hd [file_a, file_b]) \<le> 6 \<and> 7 < end_idx (last [file_a, file_b])"
      by (simp add: file_a_def file_b_def)
    with t [of 6 7] obtain G where G: "get_for_range fileset_ab 6 7 = Inr G" by blast
    with t [of 6 7] have "fs_files G = filter (\<lambda>f. 6 < end_idx f \<and> start_idx f \<le> 7) [file_a, file_b]"
      by blast
    then have "fs_files G = [file_b]" by (simp add: file_a_def file_b_def)
    with G show ?thesis by blast
  qed
  have 2: "\<exists>G. get_for_range fileset_ab 4 5 = Inr G \<and> fs_files G = [file_a, file_b]"
  proof -
    have "(4::int) \<le> 5 \<and> start_idx (hd [file_a, file_b]) \<le> 4 \<and> 5 < end_idx (last [file_a, file_b])"
      by (simp add: file_a_def file_b_def)
    with t [of 4 5] obtain G where G: "get_for_range fileset_ab 4 5 = Inr G" by blast
    with t [of 4 5] have "fs_files G = filter (\<lambda>f. 4 < end_idx f \<and> start_idx f \<le> 5) [file_a, file_b]"
      by blast
    then have "fs_files G = [file_a, file_b]" by (simp add: file_a_def file_b_def)
    with G show ?thesis by blast
  qed
  have 3: "get_for_range fileset_ab 10 12 = Inl AssertionError"
  proof -
    have "\<forall>f \<in> set [file_a, file_b]. \<not> (10 < end_idx f \<and> start_idx f \<le> 12)"
      by (simp add: file_a_def file_b_def)
    with t [of 10 12] show ?thesis by blast
  qed
  from contiguous_ab FileSet_init_ab 1 2 3 show ?thesis by blast
qed

text \<open>
  C5. For a valid dataset-wide file set, a start frame and \<open>num_frames >= 1\<close>, the
  constructor of \<open>BasePartition\<close> fails on a navigation axis that is not flat, fails on
  the assertion when no file has a frame in \<open>[start_frame, start_frame + num_frames)\<close>,
  and otherwise returns the partition whose file set holds exactly the files with at
  least one frame in that half-open range.
\<close>

theorem BasePartition_init_fileset:
  assumes "contiguous fl" and "FileSet_init fl fhb ffb = Inr F" and "1 \<le> n"
  shows "BasePartition_init m sl F s n =
           (if nav_dims (shape sl) \<noteq> 1 then Inl ValueError
            else if filter (\<lambda>f. s < end_idx f \<and> start_idx f < s + n) fl = []
              then Inl AssertionError
            else Inr \<lparr>meta = m, slice = sl,
                      fileset = \<lparr>fs_files = filter (\<lambda>f. s < end_idx f \<and> start_idx f < s + n) fl,
                                 fs_tree = enumerate 0
                                   (filter (\<lambda>f. s < end_idx f \<and> start_idx f < s + n) fl),
                                 files_open = False,
                                 frame_header_bytes = fhb, frame_footer_bytes = ffb\<rparr>,
                      start_frame = s, num_frames = n\<rparr>)
     \<and> (\<forall>p. BasePartition_init m sl F s n = Inr p \<longrightarrow>
           set (fs_files (fileset p))
             = {f \<in> set fl. \<exists>x. start_idx f \<le> x \<and> x < end_idx f \<and> s \<le> x \<and> x < s + n})"
proof -
  let ?ov = "\<lambda>f. s < end_idx f \<and> start_idx f < s + n"
  from FileSet_init_Inr [OF assms(1,2)] have
    F: "F = \<lparr>fs_files = fl, fs_tree = enumerate 0 fl, files_open = False,
                 frame_header_bytes = fhb, frame_footer_bytes = ffb\<rparr>" by auto
  have ov: "(\<lambda>f. s < end_idx f \<and> start_idx f \<le> s + n - 1) = ?ov" by auto
  have g: "get_for_range F s (s + n - 1) =
             (if filter ?ov fl = [] then Inl AssertionError
              else Inr \<lparr>fs_files = filter ?ov fl, fs_tree = enumerate 0 (filter ?ov fl),
                        files_open = False, frame_header_bytes = fhb, frame_footer_bytes = ffb\<rparr>)"
    unfolding F using get_for_range_contiguous [OF assms(1), of False fhb ffb s "s + n - 1"]
    by (simp only: ov)
  have 1: "BasePartition_init m sl F s n =
           (if nav_dims (shape sl) \<noteq> 1 then Inl ValueError
            else if filter ?ov fl = [] then Inl AssertionError
            else Inr \<lparr>meta = m, slice = sl,
                      fileset = \<lparr>fs_files = filter ?ov fl,
                                 fs_tree = enumerate 0 (filter ?ov fl),
                                 files_open = False,
                                 frame_header_bytes = fhb, frame_footer_bytes = ffb\<rparr>,
                      start_frame = s, num_frames = n\<rparr>)"
    using assms(3) by (simp add: BasePartition_init_def Partition_init_def g)
  have set_eq: "set (filter ?ov fl)
      = {f \<in> set fl. \<exists>x. start_idx f \<le> x \<and> x < end_idx f \<and> s \<le> x \<and> x < s + n}"
  proof -
    have "\<And>f. f \<in> set fl \<Longrightarrow>
        (\<exists>x. start_idx f \<le> x \<and> x < end_idx f \<and> s \<le> x \<and> x < s + n) = ?ov f"
    proof -
      fix f assume "f \<in> set fl"
      then have "start_idx f < end_idx f" by (rule contiguous_all_nonempty [OF assms(1)])
      from overlap_closed_iff [OF this, of s "s + n - 1"] assms(3)
      have "(\<exists>x. start_idx f \<le> x \<and> x < end_idx f \<and> s \<le> x \<and> x \<le> s + n - 1) = ?ov f" by auto
      moreover have "\<And>x. (x \<le> s + n - 1) = (x < s + n)" by auto
      ultimately show "(\<exists>x. start_idx f \<le> x \<and> x < end_idx f \<and> s \<le> x \<and> x < s + n) = ?ov f"
        by simp
    qed
    then show ?thesis by auto
  qed
  have 2: "\<forall>p. BasePartition_init m sl F s n = Inr p \<longrightarrow>
           set (fs_files (fileset p))
             = {f \<in> set fl. \<exists>x. start_idx f \<le> x \<and> x < end_idx f \<and> s \<le> x \<and> x < s + n}"
  proof (intro allI impI)
    fix p assume "BasePartition_init m sl F s n = Inr p"
    with 1 have "fs_files (fileset p) = filter ?ov fl" by (auto split: if_splits)
    with set_eq show "set (fs_files (fileset p))
             = {f \<in> set fl. \<exists>x. start_idx f \<le> x \<and> x < end_idx f \<and> s \<le> x \<and> x < s + n}"
      by simp
  qed
  from 1 2 show ?thesis by blast
qed

theorem BasePartition_init_fileset_witness:
  "contiguous [file_a, file_b] \<and> FileSet_init [file_a, file_b] 0 0 = Inr fileset_ab \<and> (1::int) \<le> 5
   \<and> (\<exists>p. BasePartition_init meta_2d slice_2d fileset_ab 5 5 = Inr p
          \<and> fs_files (fileset p) = [file_b])"
proof -
  have h: "(1::int) \<le> 5" by simp
  have nd: "nav_dims (shape slice_2d) = 1" by (simp add: slice_2d_def nav_dims_def Shape_nav_def)
  have f: "filter (\<lambda>f. 5 < end_idx f \<and> start_idx f < 5 + 5) [file_a, file_b] = [file_b]"
    by (simp add: file_a_def file_b_def)
  from BasePartition_init_fileset [OF contiguous_ab FileSet_init_ab h, of meta_2d slice_2d 5]
  have "BasePartition_init meta_2d slice_2d fileset_ab 5 5 =
          Inr \<lparr>meta = meta_2d, slice = slice_2d,
                fileset = \<lparr>fs_files = [file_b], fs_tree = enumerate 0 [file_b], files_open = False,
                            frame_header_bytes = 0, frame_footer_bytes = 0\<rparr>,
                start_frame = 5, num_frames = 5\<rparr>"
    by (simp only: f nd) simp
  with contiguous_ab FileSet_init_ab h show ?thesis by simp
qed

section \<open>FileSet: construction\<close>

lemma coverable_iff_sorted:
  "coverable fl = contiguous (map snd (sort_key (\<lambda>e. start_idx (snd e)) (enumerate 0 fl)))"
proof
  let ?zs = "map snd (sort_key (\<lambda>e. start_idx (snd e)) (enumerate 0 fl))"
  have m: "mset ?zs = mset fl"
  proof -
    have "mset ?zs = image_mset snd (mset (enumerate 0 fl))" by simp
    also have "\<dots> = mset (map snd (enumerate 0 fl))" by (simp only: mset_map)
    also have "\<dots> = mset fl" by (simp only: map_snd_enumerate)
    finally show ?thesis .
  qed
  {
    assume "contiguous ?zs"
    with m show "coverable fl" unfolding coverable_def by blast
  next
    assume "coverable fl"
    then obtain ys where ys: "mset ys = mset fl" "contiguous ys" unfolding coverable_def by blast
    have "sorted (map (\<lambda>e. start_idx (snd e)) (sort_key (\<lambda>e. start_idx (snd e)) (enumerate 0 fl)))"
      by (rule sorted_sort_key)
    then have sz: "sorted (map start_idx ?zs)" by (simp only: map_map comp_def)
    have "set ?zs = set ys" using m ys(1) by (metis set_mset_mset)
    then have inj: "inj_on start_idx (set ?zs)"
      using contiguous_distinct [OF ys(2)] by (simp add: distinct_map)
    have "sort_key start_idx ?zs = ys"
      by (rule sort_key_inj_key_eq) (use m ys inj contiguous_sorted in auto)
    moreover have "sort_key start_idx ?zs = ?zs" using sz by (rule sort_key_id_if_sorted)
    ultimately show "contiguous ?zs" using ys(2) by simp
  }
qed

text \<open>
  C7. The constructor of \<open>FileSet\<close> fails (on its assertion) for the empty list, fails
  with \<open>ValueError\<close> for files that cannot be ordered into a gap-free, non-overlapping
  cover, and returns the closed file set over the given files otherwise.
\<close>

theorem FileSet_init_validation:
  "FileSet_init fl fhb ffb =
     (if fl = [] then Inl AssertionError
      else if \<not> coverable fl then Inl ValueError
      else Inr \<lparr>fs_files = fl,
                fs_tree = sort_key (\<lambda>e. start_idx (snd e)) (enumerate 0 fl),
                files_open = False, frame_header_bytes = fhb, frame_footer_bytes = ffb\<rparr>)"
  by (simp add: FileSet_init_def FileTree_make_def coverable_iff_sorted Let_def)

theorem FileSet_init_validation_witness:
  "FileSet_init [] 0 0 = Inl AssertionError
   \<and> \<not> coverable [file_a, file_c] \<and> FileSet_init [file_a, file_c] 0 0 = Inl ValueError
   \<and> coverable [file_b, file_a] \<and> \<not> isl (FileSet_init [file_b, file_a] 0 0)"
proof -
  have 1: "FileSet_init [] 0 0 = Inl AssertionError"
    using FileSet_init_validation [of "[]" 0 0] by simp
  have e: "FileSet_init [file_a, file_c] 0 0 = Inl ValueError"
    by (simp add: FileSet_init_def FileTree_make_def sort_key_def file_a_def file_c_def)
  have 2: "\<not> coverable [file_a, file_c]"
    using FileSet_init_validation [of "[file_a, file_c]" 0 0] e by (auto split: if_splits)
  have "mset [file_a, file_b] = mset [file_b, file_a]" by simp
  with contiguous_ab have 3: "coverable [file_b, file_a]" unfolding coverable_def by blast
  have 4: "\<not> isl (FileSet_init [file_b, file_a] 0 0)"
    using FileSet_init_validation [of "[file_b, file_a]" 0 0] 3 by simp
  from 1 2 e 3 4 show ?thesis by blast
qed

section \<open>BasePartition: a frame count that is not positive\<close>

text \<open>
  C4. A frame count of zero on a file set of one file with the frames \<open>[0, 10)\<close>: the
  constructor asks \<open>get_for_range(0, -1)\<close> before it looks at \<open>num_frames\<close>, the scan
  stops at the first file, and the construction fails on the assertion of
  \<open>_get_files_for_range\<close>, not with the \<open>ValueError\<close> for the invalid frame count.
\<close>

theorem BasePartition_init_zero_frames:
  "FileSet_init [file_w] 0 0 = Inr fileset_w
   \<and> nav_dims (shape slice_2d) = 1
   \<and> get_for_range fileset_w 0 (- 1) = Inl AssertionError
   \<and> BasePartition_init meta_2d slice_2d fileset_w 0 0 = Inl AssertionError"
proof -
  have nd: "nav_dims (shape slice_2d) = 1"
    by (simp add: slice_2d_def nav_dims_def Shape_nav_def)
  have g: "get_for_range fileset_w 0 (- 1) = Inl AssertionError"
    by (simp add: get_for_range_def get_files_for_range_def files_from_def search_start_def
          fileset_w_def file_w_def)
  have "BasePartition_init meta_2d slice_2d fileset_w 0 0 = Inl AssertionError"
    by (simp add: BasePartition_init_def Partition_init_def nd g)
  with FileSet_init_w nd g show ?thesis by simp
qed

lemma BasePartition_init_nonpositive_fails:
  "n \<le> 0 \<Longrightarrow> isl (BasePartition_init m sl fs s n)"
  by (simp add: BasePartition_init_def split: sum.splits)

section \<open>get_macrotile: the empty tile\<close>

text \<open>
  C3. A partition over the frames \<open>[5, 10)\<close> with the signal shape \<open>(4, 4, 4)\<close> and a
  region of interest that excludes every frame: \<open>get_tiles\<close> yields nothing and
  \<open>get_macrotile\<close> returns the fallback tile, built with \<open>sig_dims=2\<close> and an origin of
  three coordinates. Its shape \<open>(0, 4, 4, 4)\<close> then splits into the navigation part
  \<open>(0, 4)\<close> and the signal part \<open>(4, 4)\<close>: the signal extent is not the partition's, the
  navigation axis is not flat and the origin has one coordinate less than the shape.
\<close>

theorem get_macrotile_empty_3d_signal:
  "get_macrotile backend_no_tiles compile_rows partition_3d float32 (Some roi_none)
     = Inr \<lparr>tile_data = [],
            tile_slice = \<lparr>origin = [5, 0, 0], shape = \<lparr>dims = [0, 4, 4, 4], sig_dims = 2\<rparr>\<rparr>,
            scheme_idx = 0\<rparr>
   \<and> Shape_sig (shape (slice partition_3d)) = [4, 4, 4]
   \<and> Shape_sig \<lparr>dims = [0, 4, 4, 4], sig_dims = 2\<rparr> = [4, 4]
   \<and> nav_dims \<lparr>dims = [0, 4, 4, 4], sig_dims = 2\<rparr> = 2
   \<and> \<not> well_formed_tile \<lparr>tile_data = ([]::int list),
            tile_slice = \<lparr>origin = [5, 0, 0], shape = \<lparr>dims = [0, 4, 4, 4], sig_dims = 2\<rparr>\<rparr>,
            scheme_idx = 0\<rparr>"
  by (simp add: get_macrotile_def get_tiles_def backend_no_tiles_def partition_3d_def np_zeros_def
        Shape_sig_def Shape_nav_def nav_dims_def well_formed_tile_def)

text \<open>
  With a two-dimensional signal the fallback tile is as the spec describes it: no frames,
  the signal shape of the partition, the origin at the partition's first frame.
\<close>

lemma get_macrotile_empty_2d:
  assumes "get_tiles backend compile p (make_for_shape (Partition_shape p) (meta_shape (meta p)))
             dest_dtype roi = Inr ([] :: ('c::zero) DataTile list)"
    and "sig_dims (shape (slice p)) = 2" and "length (dims (shape (slice p))) = 3"
    and "origin (slice p) = o0 # os" and "\<forall>d \<in> set (dims (shape (slice p))). 0 \<le> d"
  shows "\<exists>t. get_macrotile backend compile p dest_dtype roi = Inr t
     \<and> well_formed_tile t \<and> Shape_nav (shape (tile_slice t)) = [0]
     \<and> Shape_sig (shape (tile_slice t)) = Shape_sig (shape (slice p))
     \<and> origin (tile_slice t) = [o0, 0, 0] \<and> tile_data t = []"
proof -
  let ?sg = "Shape_sig (shape (slice p))"
  have "length ?sg = 2" using assms(2,3) by (simp add: Shape_sig_def)
  then obtain x y where sg: "?sg = [x, y]"
    by (cases ?sg; cases "tl ?sg") auto
  have "\<forall>d \<in> set ?sg. 0 \<le> d"
    using assms(5) by (auto simp: Shape_sig_def dest!: in_set_dropD)
  then have z: "np_zeros [0, x, y] = Inr ([]::'c list)"
    by (simp add: np_zeros_def sg)
  let ?t = "\<lparr>tile_data = ([]::'c list),
             tile_slice = \<lparr>origin = [o0, 0, 0], shape = \<lparr>dims = [0, x, y], sig_dims = 2\<rparr>\<rparr>,
             scheme_idx = 0\<rparr>"
  have r: "get_macrotile backend compile p dest_dtype roi = Inr ?t"
    using assms(1,4) by (simp add: get_macrotile_def sg z)
  have w: "well_formed_tile ?t \<and> Shape_nav (shape (tile_slice ?t)) = [0]
         \<and> Shape_sig (shape (tile_slice ?t)) = [x, y]"
    by (simp add: well_formed_tile_def nav_dims_def Shape_nav_def Shape_sig_def)
  from r w sg show ?thesis by simp
qed

text \<open>
  The scenario of the spec: a partition over the frames \<open>[5, 10)\<close> with the signal shape
  \<open>(2, 2)\<close> and a region of interest that excludes every frame.
\<close>

lemma get_macrotile_empty_2d_example:
  "get_macrotile backend_no_tiles compile_rows partition_2d float32 (Some roi_none)
     = Inr \<lparr>tile_data = [],
            tile_slice = \<lparr>origin = [5, 0, 0], shape = \<lparr>dims = [0, 2, 2], sig_dims = 2\<rparr>\<rparr>,
            scheme_idx = 0\<rparr>"
  by (simp add: get_macrotile_def get_tiles_def backend_no_tiles_def partition_2d_def slice_2d_def
        np_zeros_def Shape_sig_def)

section \<open>FileSet: the scope of the open files\<close>

text \<open>
  C8. Entering the scope opens every file of the set and marks the set open; the body
  runs on the opened set and its result or exception is the result of the statement;
  leaving the scope closes every file and marks the set closed, whatever the body did
  and whatever exception \<open>__exit__\<close> is handed. The files stay the same files.
\<close>

theorem with_FileSet_closes:
  "files_open (FileSet_enter fs)
   \<and> (\<forall>f \<in> set (fs_files (FileSet_enter fs)). is_open f)
   \<and> map file_descr (fs_files (FileSet_enter fs)) = map file_descr (fs_files fs)
   \<and> fst (with_FileSet fs body) = body (FileSet_enter fs)
   \<and> \<not> files_open (snd (with_FileSet fs body))
   \<and> (\<forall>f \<in> set (fs_files (snd (with_FileSet fs body))). \<not> is_open f)
   \<and> map file_descr (fs_files (snd (with_FileSet fs body))) = map file_descr (fs_files fs)
   \<and> (\<forall>exc. \<not> files_open (FileSet_exit (FileSet_enter fs) exc)
          \<and> (\<forall>f \<in> set (fs_files (FileSet_exit (FileSet_enter fs) exc)). \<not> is_open f))"
  by (simp add: with_FileSet_def FileSet_enter_def FileSet_exit_def File_open_def File_close_def
        file_descr_def Let_def)

theorem with_FileSet_closes_witness:
  "fst (with_FileSet fileset_ab body_raises) = Inl KeyError
   \<and> \<not> files_open (snd (with_FileSet fileset_ab body_raises))
   \<and> map is_open (fs_files (snd (with_FileSet fileset_ab body_raises))) = [False, False]
   \<and> fs_files (snd (with_FileSet fileset_ab body_raises)) = [file_a, file_b]
   \<and> files_open (FileSet_enter fileset_ab)
   \<and> map is_open (fs_files (FileSet_enter fileset_ab)) = [True, True]"
proof -
  have 1: "fs_files (snd (with_FileSet fileset_ab body_raises)) = [file_a, file_b]"
    by (simp add: with_FileSet_def FileSet_enter_def FileSet_exit_def File_open_def File_close_def
          fileset_ab_def file_a_def file_b_def Let_def)
  have 2: "length (fs_files (FileSet_enter fileset_ab)) = 2"
    by (simp add: FileSet_enter_def fileset_ab_def)
  note t = with_FileSet_closes [of fileset_ab body_raises]
  from t have "\<forall>f \<in> set (fs_files (FileSet_enter fileset_ab)). is_open f" by blast
  with 2 have 3: "map is_open (fs_files (FileSet_enter fileset_ab)) = [True, True]"
    by (cases "fs_files (FileSet_enter fileset_ab)"; cases "tl (fs_files (FileSet_enter fileset_ab))")
       auto
  from t have "\<forall>f \<in> set (fs_files (snd (with_FileSet fileset_ab body_raises))). \<not> is_open f"
    by blast
  with 1 have 4: "map is_open (fs_files (snd (with_FileSet fileset_ab body_raises))) = [False, False]"
    by simp
  from t have 5: "fst (with_FileSet fileset_ab body_raises) = Inl KeyError"
    by (simp add: body_raises_def)
  from t have 6: "\<not> files_open (snd (with_FileSet fileset_ab body_raises))" by blast
  from t have 7: "files_open (FileSet_enter fileset_ab)" by blast
  from 1 3 4 5 6 7 show ?thesis by blast
qed

section \<open>PickUDF: merge\<close>

text \<open>
  C9. For two intensity buffers of one extent, \<open>merge\<close> stores in \<open>dest\<close> the elementwise
  sum of the two, over the whole extent; merging a source buffer of zeros leaves \<open>dest\<close>
  as it was.
\<close>

theorem merge_adds_elementwise:
  fixes d s :: "('a::monoid_add) list"
  assumes "dest ''intensity'' = Some d" and "src ''intensity'' = Some s"
    and "length s = length d"
  shows "merge dest src = Inr (dest(''intensity'' \<mapsto> map2 (+) d s))
     \<and> length (map2 (+) d s) = length d
     \<and> (\<forall>i < length d. map2 (+) d s ! i = d ! i + s ! i)
     \<and> ((\<forall>x \<in> set s. x = 0) \<longrightarrow> merge dest src = Inr dest)"
proof -
  have 1: "merge dest src = Inr (dest(''intensity'' \<mapsto> map2 (+) d s))"
    using assms by (simp add: merge_def)
  have z: "(\<forall>x \<in> set s. x = 0) \<Longrightarrow> map2 (+) d s = d"
    using assms(3) by (induction d s rule: list_induct2') auto
  have "(\<forall>x \<in> set s. x = 0) \<longrightarrow> merge dest src = Inr dest"
  proof
    assume "\<forall>x \<in> set s. x = 0"
    then have "map2 (+) d s = d" by (rule z)
    with 1 assms(1) show "merge dest src = Inr dest" by (simp add: map_upd_triv)
  qed
  with 1 assms(3) show ?thesis by simp
qed

theorem merge_adds_elementwise_witness:
  "merge [''intensity'' \<mapsto> [1, 2, 3::int]] [''intensity'' \<mapsto> [10, 0, 5]]
     = Inr [''intensity'' \<mapsto> [11, 2, 8]]
   \<and> merge [''intensity'' \<mapsto> [1, 2, 3::int]] [''intensity'' \<mapsto> [0, 0, 0]]
     = Inr [''intensity'' \<mapsto> [1, 2, 3]]"
proof -
  have a: "[''intensity'' \<mapsto> [1, 2, 3::int]] ''intensity'' = Some [1, 2, 3]" by simp
  have b: "[''intensity'' \<mapsto> [10, 0, 5::int]] ''intensity'' = Some [10, 0, 5]" by simp
  have c: "[''intensity'' \<mapsto> [0, 0, 0::int]] ''intensity'' = Some [0, 0, 0]" by simp
  have 1: "merge [''intensity'' \<mapsto> [1, 2, 3::int]] [''intensity'' \<mapsto> [10, 0, 5]]
     = Inr [''intensity'' \<mapsto> [11, 2, 8]]"
    using merge_adds_elementwise [of "[''intensity'' \<mapsto> [1, 2, 3::int]]" "[1, 2, 3]"
            "[''intensity'' \<mapsto> [10, 0, 5]]" "[10, 0, 5]"] a b by simp
  have 2: "merge [''intensity'' \<mapsto> [1, 2, 3::int]] [''intensity'' \<mapsto> [0, 0, 0]]
     = Inr [''intensity'' \<mapsto> [1, 2, 3]]"
    using merge_adds_elementwise [of "[''intensity'' \<mapsto> [1, 2, 3::int]]" "[1, 2, 3]"
            "[''intensity'' \<mapsto> [0, 0, 0]]" "[0, 0, 0]"] a c by simp
  from 1 2 show ?thesis by simp
qed

end
